theory Spec2Isabelle
  imports Main "HOL-Library.Word"
begin

section \<open>Python values used by create-corpus.py\<close>

text \<open>
  A Python \<open>str\<close> is a sequence of Unicode code points, so \<open>len\<close> is the length of
  the list and differs from the number of encoded bytes outside ASCII.
  A record of a dataset is a dictionary; \<open>example.get(field, None)\<close> is the lookup of
  the map, with \<open>None\<close> both for an absent key and for a key bound to \<open>None\<close>.
  A dataset is the finite sequence of records the iteration yields.
\<close>

type_synonym pystr = "nat list"
type_synonym byte = "8 word"
type_synonym example = "pystr \<rightharpoonup> pystr"

datatype error = UnicodeEncodeError

text \<open>String literals of the source, as code points.\<close>

definition py :: "string \<Rightarrow> pystr" where
  "py s = map of_char s"

text \<open>
  \<open>str.isspace\<close> of one character, as \<open>str.strip()\<close> without arguments uses it:
  the code points CPython classifies as whitespace.
\<close>

definition isspace :: "nat \<Rightarrow> bool" where
  "isspace c \<longleftrightarrow>
     (9 \<le> c \<and> c \<le> 13) \<or> (28 \<le> c \<and> c \<le> 32) \<or> c = 133 \<or> c = 160 \<or> c = 5760 \<or>
     (8192 \<le> c \<and> c \<le> 8202) \<or> c = 8232 \<or> c = 8233 \<or> c = 8239 \<or> c = 8287 \<or>
     c = 12288"

text \<open>\<open>text.strip()\<close>: whitespace removed at both ends.\<close>

definition strip :: "pystr \<Rightarrow> pystr" where
  "strip s = rev (dropWhile isspace (rev (dropWhile isspace s)))"

text \<open>\<open>text.replace("\r\n", "\n")\<close>: left to right, without overlap.\<close>

fun replace_crlf :: "pystr \<Rightarrow> pystr" where
  "replace_crlf [] = []"
| "replace_crlf [c] = [c]"
| "replace_crlf (c # d # rest) =
     (if c = 13 \<and> d = 10 then 10 # replace_crlf rest else c # replace_crlf (d # rest))"

text \<open>
  \<open>text.encode("utf-8")\<close>: one to four bytes per code point; a surrogate
  (U+D800 to U+DFFF) raises \<open>UnicodeEncodeError\<close>.
\<close>

definition encode_char :: "nat \<Rightarrow> error + byte list" where
  "encode_char c =
     (if c < 128 then Inr [of_nat c]
      else if c < 2048 then Inr [of_nat (192 + c div 64), of_nat (128 + c mod 64)]
      else if 55296 \<le> c \<and> c \<le> 57343 then Inl UnicodeEncodeError
      else if c < 65536 then
        Inr [of_nat (224 + c div 4096), of_nat (128 + c div 64 mod 64), of_nat (128 + c mod 64)]
      else
        Inr [of_nat (240 + c div 262144), of_nat (128 + c div 4096 mod 64),
             of_nat (128 + c div 64 mod 64), of_nat (128 + c mod 64)])"

fun encode_utf8 :: "pystr \<Rightarrow> error + byte list" where
  "encode_utf8 [] = Inr []"
| "encode_utf8 (c # cs) =
     (case encode_char c of
        Inl e \<Rightarrow> Inl e
      | Inr bs \<Rightarrow> (case encode_utf8 cs of Inl e \<Rightarrow> Inl e | Inr rest \<Rightarrow> Inr (bs @ rest)))"

text \<open>
  A stand-in for \<open>str.lower\<close> that agrees with it on ASCII text, used where a concrete
  input is evaluated. The functions below take \<open>str.lower\<close> and the SHA-1 digest as
  parameters \<open>lower\<close> and \<open>sha1\<close>, since both are library code.
\<close>

definition lower_ascii :: "pystr \<Rightarrow> pystr" where
  "lower_ascii s = map (\<lambda>c. if 65 \<le> c \<and> c \<le> 90 then c + 32 else c) s"

section \<open>The script\<close>

definition TARGET_SIZE :: int where
  "TARGET_SIZE = 1000000000"

definition MIN_CHARS :: nat where
  "MIN_CHARS = 50"

definition MAX_CHARS :: nat where
  "MAX_CHARS = 50000"

definition normalize :: "(pystr \<Rightarrow> pystr) \<Rightarrow> pystr \<Rightarrow> pystr" where
  "normalize lower text = lower (strip text)"

definition hash_text :: "(byte list \<Rightarrow> 'h) \<Rightarrow> pystr \<Rightarrow> error + 'h" where
  "hash_text sha1 text =
     (case encode_utf8 text of Inl e \<Rightarrow> Inl e | Inr bs \<Rightarrow> Inr (sha1 bs))"

text \<open>
  The state the loop of \<open>write_streaming_dataset\<close> works on: the two objects it
  mutates (the file, as the sequence of strings passed to \<open>write\<close>, and the set of
  hashes) and its two local counters.
\<close>

record 'h collector =
  file_handle :: "pystr list"
  seen_hashes :: "'h set"
  written :: int
  kept :: int

datatype control = Continue | Break | Raise error

text \<open>
  One iteration of the loop. The file is opened with \<open>encoding="utf-8"\<close>, so
  \<open>write\<close> encodes its argument and raises where \<open>encode\<close> does.
\<close>

definition body ::
  "(pystr \<Rightarrow> pystr) \<Rightarrow> (byte list \<Rightarrow> 'h) \<Rightarrow> pystr \<Rightarrow> int \<Rightarrow> example \<Rightarrow> 'h collector
     \<Rightarrow> control \<times> 'h collector" where
  "body lower sha1 field max_chars example st =
     (case example field of
        None \<Rightarrow> (Continue, st)
      | Some raw \<Rightarrow>
          let text = replace_crlf (strip raw) in
          if text = [] then (Continue, st)
          else if length text < MIN_CHARS \<or> length text > MAX_CHARS then (Continue, st)
          else
            (case hash_text sha1 (normalize lower text) of
               Inl e \<Rightarrow> (Raise e, st)
             | Inr h \<Rightarrow>
                 if h \<in> seen_hashes st then (Continue, st)
                 else
                   let st1 = st\<lparr>seen_hashes := insert h (seen_hashes st)\<rparr> in
                   (case encode_utf8 (text @ [10]) of
                      Inl e \<Rightarrow> (Raise e, st1)
                    | Inr out \<Rightarrow>
                        let st2 = st1\<lparr>file_handle := file_handle st1 @ [text @ [10]]\<rparr> in
                        (case encode_utf8 text of
                           Inl e \<Rightarrow> (Raise e, st2)
                         | Inr bs \<Rightarrow>
                             let st3 = st2\<lparr>written := written st2 + int (length bs),
                                           kept := kept st2 + 1\<rparr>
                             in if written st3 \<ge> max_chars then (Break, st3)
                                else (Continue, st3)))))"

text \<open>
  The \<open>for\<close> loop, with the way it ended: \<open>Continue\<close> when the dataset is exhausted,
  \<open>Break\<close> at the \<open>break\<close>, \<open>Raise\<close> at an exception.
\<close>

fun for_loop ::
  "(pystr \<Rightarrow> pystr) \<Rightarrow> (byte list \<Rightarrow> 'h) \<Rightarrow> pystr \<Rightarrow> int \<Rightarrow> example list \<Rightarrow> 'h collector
     \<Rightarrow> control \<times> 'h collector" where
  "for_loop lower sha1 field max_chars [] st = (Continue, st)"
| "for_loop lower sha1 field max_chars (example # dataset) st =
     (case body lower sha1 field max_chars example st of
        (Continue, st') \<Rightarrow> for_loop lower sha1 field max_chars dataset st'
      | (Break, st') \<Rightarrow> (Break, st')
      | (Raise e, st') \<Rightarrow> (Raise e, st'))"

text \<open>
  The call returns \<open>(written, kept)\<close>, or raises; either way the file and the set keep
  what the loop did to them.
\<close>

definition write_streaming_dataset ::
  "(pystr \<Rightarrow> pystr) \<Rightarrow> (byte list \<Rightarrow> 'h) \<Rightarrow> example list \<Rightarrow> pystr \<Rightarrow> pystr list \<Rightarrow> int
     \<Rightarrow> 'h set \<Rightarrow> (error + int \<times> int) \<times> pystr list \<times> 'h set" where
  "write_streaming_dataset lower sha1 dataset field file max_chars seen =
     (case for_loop lower sha1 field max_chars dataset
             \<lparr>file_handle = file, seen_hashes = seen, written = 0, kept = 0\<rparr> of
        (Raise e, st) \<Rightarrow> (Inl e, file_handle st, seen_hashes st)
      | (c, st) \<Rightarrow> (Inr (written st, kept st), file_handle st, seen_hashes st))"

text \<open>
  \<open>main\<close>: the output file is recreated empty, the set of hashes starts empty, and the
  three datasets (the results of \<open>load_dataset\<close>, taken as parameters) are collected in
  turn into the same file and the same set. \<open>int(TARGET_SIZE * 0.3)\<close> and
  \<open>int(TARGET_SIZE * 0.4)\<close> are 300000000 and 400000000. An exception ends the run;
  otherwise the two totals of the summary are returned.
\<close>

definition main ::
  "(pystr \<Rightarrow> pystr) \<Rightarrow> (byte list \<Rightarrow> 'h) \<Rightarrow> example list \<Rightarrow> example list \<Rightarrow> example list
     \<Rightarrow> (error + int \<times> int) \<times> pystr list \<times> 'h set" where
  "main lower sha1 stack_py stack_js wiki =
     (let seen_hashes = {}; total_written = 0; total_kept = 0; f = [] in
      case write_streaming_dataset lower sha1 stack_py (py ''content'') f
             (TARGET_SIZE * 3 div 10) seen_hashes of
        (Inl e, f, seen_hashes) \<Rightarrow> (Inl e, f, seen_hashes)
      | (Inr (w, k), f, seen_hashes) \<Rightarrow>
          let total_written = total_written + w; total_kept = total_kept + k in
          (case write_streaming_dataset lower sha1 stack_js (py ''content'') f
                  (TARGET_SIZE * 3 div 10) seen_hashes of
             (Inl e, f, seen_hashes) \<Rightarrow> (Inl e, f, seen_hashes)
           | (Inr (w, k), f, seen_hashes) \<Rightarrow>
               let total_written = total_written + w; total_kept = total_kept + k in
               (case write_streaming_dataset lower sha1 wiki (py ''text'') f
                       (TARGET_SIZE * 4 div 10) seen_hashes of
                  (Inl e, f, seen_hashes) \<Rightarrow> (Inl e, f, seen_hashes)
                | (Inr (w, k), f, seen_hashes) \<Rightarrow>
                    (Inr (total_written + w, total_kept + k), f, seen_hashes))))"

section \<open>Notions the properties are stated with\<close>

text \<open>
  A run in general: any sequence of calls (dataset, field, quota) of
  \<open>write_streaming_dataset\<close> that share one file and one set of hashes, as the three
  calls of \<open>main\<close> do. It yields the file and the set after the last call made.
\<close>

fun collect_calls ::
  "(pystr \<Rightarrow> pystr) \<Rightarrow> (byte list \<Rightarrow> 'h) \<Rightarrow> (example list \<times> pystr \<times> int) list
     \<Rightarrow> pystr list \<Rightarrow> 'h set \<Rightarrow> pystr list \<times> 'h set" where
  "collect_calls lower sha1 [] file seen = (file, seen)"
| "collect_calls lower sha1 ((dataset, field, max_chars) # calls) file seen =
     (case write_streaming_dataset lower sha1 dataset field file max_chars seen of
        (Inl e, file', seen') \<Rightarrow> (file', seen')
      | (Inr r, file', seen') \<Rightarrow> collect_calls lower sha1 calls file' seen')"

text \<open>
  The fingerprint of an entry of the file: the hash the loop computed for the text it
  wrote, the entry without its final newline.
\<close>

definition fingerprint :: "(pystr \<Rightarrow> pystr) \<Rightarrow> (byte list \<Rightarrow> 'h) \<Rightarrow> pystr \<Rightarrow> error + 'h" where
  "fingerprint lower sha1 entry = hash_text sha1 (normalize lower (butlast entry))"

text \<open>
  The texts of a dataset that pass the three filters of the loop (field present, not
  empty once cleaned, length inside the window), in the order of the dataset.
\<close>

definition cleaned :: "pystr \<Rightarrow> example \<Rightarrow> pystr option" where
  "cleaned field example =
     (case example field of
        None \<Rightarrow> None
      | Some raw \<Rightarrow>
          let text = replace_crlf (strip raw) in
          if text = [] \<or> length text < MIN_CHARS \<or> length text > MAX_CHARS then None
          else Some text)"

definition accepted_texts :: "pystr \<Rightarrow> example list \<Rightarrow> pystr list" where
  "accepted_texts field dataset = List.map_filter (cleaned field) dataset"

text \<open>The number of bytes \<open>len(text.encode("utf-8"))\<close> counts, for a text that encodes.\<close>

definition utf8_len :: "pystr \<Rightarrow> nat" where
  "utf8_len text = (case encode_utf8 text of Inl e \<Rightarrow> 0 | Inr bs \<Rightarrow> length bs)"

text \<open>
  Concrete inputs: a stand-in digest without collisions (the encoded bytes themselves),
  texts of 50 ASCII characters and the empty state of a call.
\<close>

definition sha1_stub :: "byte list \<Rightarrow> byte list" where
  "sha1_stub bs = bs"

definition text_a :: pystr where
  "text_a = py ''Hello World padded to fifty characters exactly!!!!''"

definition text_b :: pystr where
  "text_b = py ''hello world padded to fifty characters exactly!!!!''"

definition text_c :: pystr where
  "text_c = py ''another record of fifty characters, nothing more!!''"

definition st0 :: "byte list collector" where
  "st0 = \<lparr>file_handle = [], seen_hashes = {}, written = 0, kept = 0\<rparr>"

definition rec_a :: example where
  "rec_a = [py ''text'' \<mapsto> text_a]"

definition rec_b :: example where
  "rec_b = [py ''text'' \<mapsto> text_b]"

definition rec_c :: example where
  "rec_c = [py ''text'' \<mapsto> text_c]"

definition text_e :: pystr where
  "text_e = [233, 233, 233, 233, 233, 233, 233, 233, 233, 233,
             233, 233, 233, 233, 233, 233, 233, 233, 233, 233,
             233, 233, 233, 233, 233, 233, 233, 233, 233, 233,
             233, 233, 233, 233, 233, 233, 233, 233, 233, 233,
             233, 233, 233, 233, 233, 233, 233, 233, 233, 233]"

definition text_49 :: pystr where
  "text_49 = [8364, 8364, 8364, 8364, 8364, 8364, 8364, 8364, 8364, 8364,
              8364, 8364, 8364, 8364, 8364, 8364, 8364, 8364, 8364, 8364,
              8364, 8364, 8364, 8364, 8364, 8364, 8364, 8364, 8364, 8364,
              8364, 8364, 8364, 8364, 8364, 8364, 8364, 8364, 8364, 8364,
              8364, 8364, 8364, 8364, 8364, 8364, 8364, 8364, 8364]"

text \<open>
  How a file and a set of hashes may change from \<open>(fh, seen)\<close> to \<open>(fh', seen')\<close>:
  entries are only appended, the appended entries have pairwise different fingerprints,
  each of them a hash that is in the set afterwards and was not before, and the set
  only grows.
\<close>

definition fresh_entries ::
  "(pystr \<Rightarrow> pystr) \<Rightarrow> (byte list \<Rightarrow> 'h) \<Rightarrow> pystr list \<Rightarrow> 'h set \<Rightarrow> pystr list \<Rightarrow> 'h set \<Rightarrow> bool" where
  "fresh_entries lower sha1 fh seen fh' seen' \<longleftrightarrow>
     (\<exists>new. fh' = fh @ new \<and> distinct (map (fingerprint lower sha1) new) \<and>
        (\<forall>entry \<in> set new. \<exists>h. fingerprint lower sha1 entry = Inr h \<and> h \<in> seen' \<and> h \<notin> seen)) \<and>
     seen \<subseteq> seen'"

text \<open>
  What a stretch of the loop that ends without an exception does between two states
  \<open>s\<close> and \<open>s'\<close>: it appends entries that each end in a newline, as many as
  \<open>kept\<close> grew by and with as many bytes as \<open>written\<close> and \<open>kept\<close> grew by together,
  and it adds as many hashes to the set.
\<close>

definition counted :: "'h collector \<Rightarrow> 'h collector \<Rightarrow> bool" where
  "counted s s' \<longleftrightarrow>
     (\<exists>new. file_handle s' = file_handle s @ new \<and>
        int (length new) = kept s' - kept s \<and>
        (\<forall>entry \<in> set new. entry \<noteq> [] \<and> last entry = 10) \<and>
        int (sum_list (map utf8_len new)) = (written s' - written s) + (kept s' - kept s)) \<and>
     seen_hashes s \<subseteq> seen_hashes s' \<and>
     finite (seen_hashes s' - seen_hashes s) \<and>
     int (card (seen_hashes s' - seen_hashes s)) = kept s' - kept s"

section \<open>Helper lemmas\<close>

lemma body_seen_mono:
  "seen_hashes st \<subseteq> seen_hashes (snd (body lower sha1 field max_chars example st))"
  by (auto simp: body_def Let_def split: option.splits sum.splits)

lemma for_loop_seen_mono:
  "seen_hashes st \<subseteq> seen_hashes (snd (for_loop lower sha1 field max_chars dataset st))"
proof (induction dataset arbitrary: st)
  case Nil
  show ?case by simp
next
  case (Cons example dataset)
  obtain c st' where b: "body lower sha1 field max_chars example st = (c, st')"
    by (cases "body lower sha1 field max_chars example st")
  have m: "seen_hashes st \<subseteq> seen_hashes st'"
    using body_seen_mono [of st lower sha1 field max_chars example] b by simp
  show ?case
  proof (cases c)
    case Continue
    then show ?thesis using b m Cons.IH [of st'] by auto
  next
    case Break
    then show ?thesis using b m by simp
  next
    case (Raise e)
    then show ?thesis using b m by simp
  qed
qed

lemma wsd_seen_mono:
  "seen \<subseteq> snd (snd (write_streaming_dataset lower sha1 dataset field file max_chars seen))"
  using for_loop_seen_mono [of "\<lparr>file_handle = file, seen_hashes = seen, written = 0, kept = 0\<rparr>"
      lower sha1 field max_chars dataset]
  by (auto simp: write_streaming_dataset_def split: prod.splits control.splits)

lemma collect_calls_seen_mono:
  "seen \<subseteq> snd (collect_calls lower sha1 calls fh seen)"
proof (induction calls arbitrary: fh seen)
  case Nil
  show ?case by simp
next
  case (Cons call calls)
  obtain dataset field max_chars where c: "call = (dataset, field, max_chars)"
    by (cases call)
  obtain r fh' seen' where
    w: "write_streaming_dataset lower sha1 dataset field fh max_chars seen = (r, fh', seen')"
    by (cases "write_streaming_dataset lower sha1 dataset field fh max_chars seen")
  have m: "seen \<subseteq> seen'"
    using wsd_seen_mono [of seen lower sha1 dataset field fh max_chars] w by simp
  show ?case
  proof (cases r)
    case (Inl e)
    then show ?thesis using c w m by simp
  next
    case (Inr res)
    then show ?thesis using c w m Cons.IH [of seen' fh'] by auto
  qed
qed

lemma body_skip:
  "example field = None \<Longrightarrow> body lower sha1 field max_chars example st = (Continue, st)"
  "example field = Some raw \<Longrightarrow> replace_crlf (strip raw) = [] \<Longrightarrow>
     body lower sha1 field max_chars example st = (Continue, st)"
  "example field = Some raw \<Longrightarrow> length (replace_crlf (strip raw)) < 50 \<Longrightarrow>
     body lower sha1 field max_chars example st = (Continue, st)"
  "example field = Some raw \<Longrightarrow> length (replace_crlf (strip raw)) > 50000 \<Longrightarrow>
     body lower sha1 field max_chars example st = (Continue, st)"
  "example field = Some raw \<Longrightarrow>
     hash_text sha1 (normalize lower (replace_crlf (strip raw))) = Inr h \<Longrightarrow>
     h \<in> seen_hashes st \<Longrightarrow>
     body lower sha1 field max_chars example st = (Continue, st)"
  by (auto simp: body_def Let_def MIN_CHARS_def MAX_CHARS_def)

lemma encode_utf8_append:
  "encode_utf8 (xs @ ys) =
     (case encode_utf8 xs of
        Inl e \<Rightarrow> Inl e
      | Inr a \<Rightarrow> (case encode_utf8 ys of Inl e \<Rightarrow> Inl e | Inr b \<Rightarrow> Inr (a @ b)))"
  by (induction xs) (auto split: sum.splits)

lemma encode_char_newline: "encode_char 10 = Inr [10]"
  by (simp add: encode_char_def)

lemma encode_line:
  "encode_utf8 text = Inr bs \<Longrightarrow> encode_utf8 (text @ [10]) = Inr (bs @ [10])"
  by (simp add: encode_utf8_append encode_char_newline)

lemma encode_line_inv:
  "encode_utf8 (text @ [10]) = Inr out \<Longrightarrow> \<exists>bs. encode_utf8 text = Inr bs \<and> out = bs @ [10]"
  by (auto simp: encode_utf8_append encode_char_newline split: sum.splits)

lemma body_accept:
  assumes "example field = Some raw" "text = replace_crlf (strip raw)"
    "50 \<le> length text" "length text \<le> 50000"
    "hash_text sha1 (normalize lower text) = Inr h" "h \<notin> seen_hashes st"
    "encode_utf8 text = Inr bs"
  shows "body lower sha1 field max_chars example st =
     (if max_chars \<le> written st + int (length bs) then Break else Continue,
      st\<lparr>seen_hashes := insert h (seen_hashes st),
        file_handle := file_handle st @ [text @ [10]],
        written := written st + int (length bs),
        kept := kept st + 1\<rparr>)"
proof -
  have ne: "text \<noteq> []" using assms(3) by auto
  have out: "encode_utf8 (text @ [10]) = Inr (bs @ [10])"
    using assms(7) by (rule encode_line)
  show ?thesis
    using assms ne out
    by (simp add: body_def Let_def MIN_CHARS_def MAX_CHARS_def)
qed

lemma body_cases [consumes 1, case_names skip raise_hash raise_write accept]:
  assumes "body lower sha1 field max_chars example st = (c, st')"
  obtains
    (skip) "c = Continue" "st' = st"
  | (raise_hash) e where "c = Raise e" "st' = st"
  | (raise_write) e h where "c = Raise e" "h \<notin> seen_hashes st"
      "st' = st\<lparr>seen_hashes := insert h (seen_hashes st)\<rparr>"
  | (accept) raw t h bs where
      "example field = Some raw" "t = replace_crlf (strip raw)"
      "50 \<le> length t" "length t \<le> 50000"
      "hash_text sha1 (normalize lower t) = Inr h" "h \<notin> seen_hashes st"
      "encode_utf8 t = Inr bs"
      "c = (if max_chars \<le> written st + int (length bs) then Break else Continue)"
      "st' = st\<lparr>seen_hashes := insert h (seen_hashes st),
        file_handle := file_handle st @ [t @ [10]],
        written := written st + int (length bs),
        kept := kept st + 1\<rparr>"
proof (cases "example field")
  case None
  then have "body lower sha1 field max_chars example st = (Continue, st)"
    by (simp add: body_def)
  then show ?thesis using assms skip by simp
next
  case (Some raw)
  define t where "t = replace_crlf (strip raw)"
  show ?thesis
  proof (cases "t = [] \<or> length t < 50 \<or> length t > 50000")
    case True
    then have "body lower sha1 field max_chars example st = (Continue, st)"
      using Some by (auto simp: body_def Let_def t_def MIN_CHARS_def MAX_CHARS_def)
    then show ?thesis using assms skip by simp
  next
    case False
    then have win: "50 \<le> length t" "length t \<le> 50000" "t \<noteq> []"
      by auto
    show ?thesis
    proof (cases "hash_text sha1 (normalize lower t)")
      case (Inl e)
      then have "body lower sha1 field max_chars example st = (Raise e, st)"
        using Some win by (simp add: body_def Let_def t_def [symmetric] MIN_CHARS_def MAX_CHARS_def)
      then show ?thesis using assms raise_hash [of e] by simp
    next
      case (Inr h)
      show ?thesis
      proof (cases "h \<in> seen_hashes st")
        case True
        then have "body lower sha1 field max_chars example st = (Continue, st)"
          using Some win Inr
          by (simp add: body_def Let_def t_def [symmetric] MIN_CHARS_def MAX_CHARS_def)
        then show ?thesis using assms skip by simp
      next
        case fresh: False
        show ?thesis
        proof (cases "encode_utf8 t")
          case (Inl e)
          then have "encode_utf8 (t @ [10]) = Inl e"
            by (simp add: encode_utf8_append)
          then have "body lower sha1 field max_chars example st =
              (Raise e, st\<lparr>seen_hashes := insert h (seen_hashes st)\<rparr>)"
            using Some win Inr fresh
            by (simp add: body_def Let_def t_def [symmetric] MIN_CHARS_def MAX_CHARS_def)
          then show ?thesis using assms fresh raise_write [of e h] by simp
        next
          case bs: (Inr bs)
          have "body lower sha1 field max_chars example st =
             (if max_chars \<le> written st + int (length bs) then Break else Continue,
              st\<lparr>seen_hashes := insert h (seen_hashes st),
                file_handle := file_handle st @ [t @ [10]],
                written := written st + int (length bs),
                kept := kept st + 1\<rparr>)"
            using body_accept [where example = example and field = field, OF Some t_def win(1) win(2) Inr fresh bs] .
          then show ?thesis
            using assms accept [OF Some t_def win(1) win(2) Inr fresh bs] by simp
        qed
      qed
    qed
  qed
qed

lemma for_loop_append:
  "for_loop lower sha1 field max_chars (xs @ ys) st =
     (case for_loop lower sha1 field max_chars xs st of
        (Continue, st') \<Rightarrow> for_loop lower sha1 field max_chars ys st'
      | (Break, st') \<Rightarrow> (Break, st')
      | (Raise e, st') \<Rightarrow> (Raise e, st'))"
  by (induction xs arbitrary: st) (auto split: prod.splits control.splits)

text \<open>Unfolding rules for evaluating the definitions on concrete inputs.\<close>

lemmas ev = body_def strip_def isspace_def py_def MIN_CHARS_def MAX_CHARS_def hash_text_def
  normalize_def lower_ascii_def encode_char_def Let_def sha1_stub_def text_a_def text_b_def
  text_c_def st0_def rec_a_def rec_b_def rec_c_def text_e_def text_49_def utf8_len_def

lemma ev_a: "body lower_ascii sha1_stub (py ''text'') 50 rec_a st0 =
  (Break, \<lparr>file_handle = [text_a @ [10]],
     seen_hashes = {map of_nat text_b}, written = 50, kept = 1\<rparr>)"
  by (simp add: ev)






lemma for_loop_rel:
  assumes refl: "\<And>s. R s s"
    and trans: "\<And>a b c. R a b \<Longrightarrow> R b c \<Longrightarrow> R a c"
    and step: "\<And>ex s c s'. body lower sha1 field max_chars ex s = (c, s') \<Longrightarrow> R s s'"
  shows "R st (snd (for_loop lower sha1 field max_chars dataset st))"
proof (induction dataset arbitrary: st)
  case Nil
  show ?case by (simp add: refl)
next
  case (Cons ex dataset)
  obtain c st' where b: "body lower sha1 field max_chars ex st = (c, st')"
    by (cases "body lower sha1 field max_chars ex st")
  have r: "R st st'" using step [OF b] .
  show ?case
  proof (cases c)
    case Continue
    then show ?thesis using b trans [OF r Cons.IH [of st']] by simp
  next
    case Break
    then show ?thesis using b r by simp
  next
    case (Raise e)
    then show ?thesis using b r by simp
  qed
qed

lemma for_loop_rel_returns:
  assumes refl: "\<And>s. R s s"
    and trans: "\<And>a b c. R a b \<Longrightarrow> R b c \<Longrightarrow> R a c"
    and step: "\<And>ex s c s'. body lower sha1 field max_chars ex s = (c, s') \<Longrightarrow>
                 c = Continue \<or> c = Break \<Longrightarrow> R s s'"
    and run: "for_loop lower sha1 field max_chars dataset st = (c, st')"
    and ret: "c = Continue \<or> c = Break"
  shows "R st st'"
  using run
proof (induction dataset arbitrary: st)
  case Nil
  then show ?case by (simp add: refl)
next
  case (Cons ex dataset)
  obtain d s1 where b: "body lower sha1 field max_chars ex st = (d, s1)"
    by (cases "body lower sha1 field max_chars ex st")
  show ?case
  proof (cases d)
    case Continue
    then have "for_loop lower sha1 field max_chars dataset s1 = (c, st')"
      using Cons.prems b by simp
    then have "R s1 st'" by (rule Cons.IH)
    moreover have "R st s1" using step [OF b] Continue by simp
    ultimately show ?thesis by (rule trans [rotated])
  next
    case Break
    then have "st' = s1" using Cons.prems b by simp
    then show ?thesis using step [OF b] Break by simp
  next
    case (Raise e)
    then have "c = Raise e" using Cons.prems b by simp
    then show ?thesis using ret by simp
  qed
qed

lemma encode_char_length: "encode_char c = Inr bs \<Longrightarrow> length bs \<le> 4"
  by (auto simp: encode_char_def split: if_splits)

lemma encode_utf8_length: "encode_utf8 t = Inr bs \<Longrightarrow> length bs \<le> 4 * length t"
proof (induction t arbitrary: bs)
  case Nil
  then show ?case by simp
next
  case (Cons c cs)
  then obtain b1 b2 where e: "encode_char c = Inr b1" "encode_utf8 cs = Inr b2" "bs = b1 @ b2"
    by (auto split: sum.splits)
  show ?case
    using encode_char_length [OF e(1)] Cons.IH [OF e(2)] e(3) by simp
qed

lemma fingerprint_line:
  "fingerprint lower sha1 (t @ [10]) = hash_text sha1 (normalize lower t)"
  by (simp add: fingerprint_def)

lemma fresh_entries_refl: "fresh_entries lower sha1 fh seen fh seen"
  by (simp add: fresh_entries_def)

lemma fresh_entries_trans:
  assumes "fresh_entries lower sha1 fh seen fh1 seen1"
    and "fresh_entries lower sha1 fh1 seen1 fh2 seen2"
  shows "fresh_entries lower sha1 fh seen fh2 seen2"
proof -
  obtain n1 where n1: "fh1 = fh @ n1" "distinct (map (fingerprint lower sha1) n1)"
    "\<forall>entry \<in> set n1. \<exists>h. fingerprint lower sha1 entry = Inr h \<and> h \<in> seen1 \<and> h \<notin> seen"
    and s1: "seen \<subseteq> seen1"
    using assms(1) by (auto simp: fresh_entries_def)
  obtain n2 where n2: "fh2 = fh1 @ n2" "distinct (map (fingerprint lower sha1) n2)"
    "\<forall>entry \<in> set n2. \<exists>h. fingerprint lower sha1 entry = Inr h \<and> h \<in> seen2 \<and> h \<notin> seen1"
    and s2: "seen1 \<subseteq> seen2"
    using assms(2) by (auto simp: fresh_entries_def)
  have d: "fingerprint lower sha1 ` set n1 \<inter> fingerprint lower sha1 ` set n2 = {}"
  proof (rule ccontr)
    assume "fingerprint lower sha1 ` set n1 \<inter> fingerprint lower sha1 ` set n2 \<noteq> {}"
    then obtain e1 e2 where e: "e1 \<in> set n1" "e2 \<in> set n2"
      "fingerprint lower sha1 e1 = fingerprint lower sha1 e2"
      by auto
    obtain h1 where h1: "fingerprint lower sha1 e1 = Inr h1" "h1 \<in> seen1"
      using n1(3) e(1) by blast
    obtain h2 where h2: "fingerprint lower sha1 e2 = Inr h2" "h2 \<notin> seen1"
      using n2(3) e(2) by blast
    show False using e(3) h1 h2 by simp
  qed
  have "fh2 = fh @ (n1 @ n2)" using n1(1) n2(1) by simp
  moreover have "distinct (map (fingerprint lower sha1) (n1 @ n2))"
    using n1(2) n2(2) d by simp
  moreover have "\<forall>entry \<in> set (n1 @ n2). \<exists>h. fingerprint lower sha1 entry = Inr h \<and> h \<in> seen2 \<and> h \<notin> seen"
  proof
    fix entry
    assume "entry \<in> set (n1 @ n2)"
    then consider "entry \<in> set n1" | "entry \<in> set n2" by auto
    then show "\<exists>h. fingerprint lower sha1 entry = Inr h \<and> h \<in> seen2 \<and> h \<notin> seen"
    proof cases
      case 1
      then obtain h where "fingerprint lower sha1 entry = Inr h" "h \<in> seen1" "h \<notin> seen"
        using n1(3) by blast
      then show ?thesis using s2 by blast
    next
      case 2
      then obtain h where "fingerprint lower sha1 entry = Inr h" "h \<in> seen2" "h \<notin> seen1"
        using n2(3) by blast
      then show ?thesis using s1 by blast
    qed
  qed
  moreover have "seen \<subseteq> seen2" using s1 s2 by simp
  ultimately show ?thesis unfolding fresh_entries_def by blast
qed

lemma body_fresh_entries:
  assumes "body lower sha1 field max_chars ex s = (c, s')"
  shows "fresh_entries lower sha1 (file_handle s) (seen_hashes s) (file_handle s') (seen_hashes s')"
  using assms
proof (cases rule: body_cases)
  case skip
  then show ?thesis by (simp add: fresh_entries_refl)
next
  case (raise_hash e)
  then show ?thesis by (simp add: fresh_entries_refl)
next
  case (raise_write e h)
  then show ?thesis by (auto simp: fresh_entries_def)
next
  case (accept raw t h bs)
  then show ?thesis by (auto simp: fresh_entries_def fingerprint_line)
qed

lemma for_loop_fresh_entries:
  "fresh_entries lower sha1 (file_handle st) (seen_hashes st)
     (file_handle (snd (for_loop lower sha1 field max_chars dataset st)))
     (seen_hashes (snd (for_loop lower sha1 field max_chars dataset st)))"
proof (rule for_loop_rel [where R = "\<lambda>a b. fresh_entries lower sha1 (file_handle a) (seen_hashes a)
     (file_handle b) (seen_hashes b)"])
  show "\<And>s. fresh_entries lower sha1 (file_handle s) (seen_hashes s) (file_handle s) (seen_hashes s)"
    by (rule fresh_entries_refl)
  show "\<And>a b c. fresh_entries lower sha1 (file_handle a) (seen_hashes a) (file_handle b) (seen_hashes b) \<Longrightarrow>
       fresh_entries lower sha1 (file_handle b) (seen_hashes b) (file_handle c) (seen_hashes c) \<Longrightarrow>
       fresh_entries lower sha1 (file_handle a) (seen_hashes a) (file_handle c) (seen_hashes c)"
    by (rule fresh_entries_trans)
  show "\<And>ex s c s'. body lower sha1 field max_chars ex s = (c, s') \<Longrightarrow>
       fresh_entries lower sha1 (file_handle s) (seen_hashes s) (file_handle s') (seen_hashes s')"
    by (rule body_fresh_entries)
qed

lemma wsd_fresh_entries:
  assumes "write_streaming_dataset lower sha1 dataset field fh max_chars seen = (r, fh', seen')"
  shows "fresh_entries lower sha1 fh seen fh' seen'"
  using assms for_loop_fresh_entries [of lower sha1
      "\<lparr>file_handle = fh, seen_hashes = seen, written = 0, kept = 0\<rparr>" field max_chars dataset]
  by (auto simp: write_streaming_dataset_def split: prod.splits control.splits)

lemma collect_calls_fresh_entries:
  "fresh_entries lower sha1 fh seen (fst (collect_calls lower sha1 calls fh seen))
     (snd (collect_calls lower sha1 calls fh seen))"
proof (induction calls arbitrary: fh seen)
  case Nil
  show ?case by (simp add: fresh_entries_refl)
next
  case (Cons call calls)
  obtain dataset field max_chars where c: "call = (dataset, field, max_chars)"
    by (cases call)
  obtain r fh' seen' where
    w: "write_streaming_dataset lower sha1 dataset field fh max_chars seen = (r, fh', seen')"
    by (cases "write_streaming_dataset lower sha1 dataset field fh max_chars seen")
  have m: "fresh_entries lower sha1 fh seen fh' seen'"
    using w by (rule wsd_fresh_entries)
  show ?case
  proof (cases r)
    case (Inl e)
    then show ?thesis using c w m by simp
  next
    case (Inr res)
    then show ?thesis using c w fresh_entries_trans [OF m Cons.IH [of fh' seen']] by simp
  qed
qed

lemma cleaned_Some:
  "cleaned field ex = Some t \<Longrightarrow>
     \<exists>raw. ex field = Some raw \<and> t = replace_crlf (strip raw) \<and> 50 \<le> length t \<and> length t \<le> 50000"
  by (auto simp: cleaned_def Let_def MIN_CHARS_def MAX_CHARS_def split: option.splits if_splits)

lemma cleaned_None:
  "cleaned field ex = None \<Longrightarrow> body lower sha1 field max_chars ex st = (Continue, st)"
  by (auto simp: cleaned_def body_def Let_def split: option.splits if_splits)

lemma body_cleaned:
  assumes "cleaned field ex = Some t" "hash_text sha1 (normalize lower t) = Inr h"
    "h \<notin> seen_hashes st" "encode_utf8 t = Inr bs"
  shows "body lower sha1 field max_chars ex st =
     (if max_chars \<le> written st + int (length bs) then Break else Continue,
      st\<lparr>seen_hashes := insert h (seen_hashes st),
        file_handle := file_handle st @ [t @ [10]],
        written := written st + int (length bs),
        kept := kept st + 1\<rparr>)"
proof -
  obtain raw where r: "ex field = Some raw" "t = replace_crlf (strip raw)"
    "50 \<le> length t" "length t \<le> 50000"
    using cleaned_Some [OF assms(1)] by blast
  show ?thesis
    using body_accept [where example = ex and field = field, OF r assms(2) assms(3) assms(4)] .
qed

lemma fresh_entries_avoid:
  assumes "fresh_entries lower sha1 fh seen fh' seen'" "h \<in> seen"
  shows "\<exists>new. fh' = fh @ new \<and> (\<forall>entry \<in> set new. fingerprint lower sha1 entry \<noteq> Inr h)"
proof -
  obtain new where n: "fh' = fh @ new"
    "\<forall>entry \<in> set new. \<exists>h. fingerprint lower sha1 entry = Inr h \<and> h \<in> seen' \<and> h \<notin> seen"
    using assms(1) by (auto simp: fresh_entries_def)
  have "\<forall>entry \<in> set new. fingerprint lower sha1 entry \<noteq> Inr h"
  proof
    fix entry
    assume "entry \<in> set new"
    then obtain h' where "fingerprint lower sha1 entry = Inr h'" "h' \<notin> seen"
      using n(2) by blast
    then show "fingerprint lower sha1 entry \<noteq> Inr h"
      using assms(2) by auto
  qed
  then show ?thesis using n(1) by blast
qed

lemma ev_ab: "for_loop lower_ascii sha1_stub (py ''text'') 1000 [rec_a, rec_b] st0 =
   (Continue, \<lparr>file_handle = [text_a @ [10]], seen_hashes = {map of_nat text_b},
       written = 50, kept = 1\<rparr>)"
  by (simp add: ev)

lemma ev_clean_a: "cleaned (py ''text'') rec_a = Some text_a"
  by (simp add: cleaned_def ev)

lemma ev_hash_a: "hash_text sha1_stub (normalize lower_ascii text_a) = Inr (map of_nat text_b)"
  by (simp add: ev)

lemma ev_enc_a: "encode_utf8 text_a = Inr (map of_nat text_a)"
  by (simp add: ev)

lemma ev_run_ab: "fst (collect_calls lower_ascii sha1_stub
            [([rec_a, rec_b], py ''text'', 1000), ([rec_b], py ''text'', 1000)] [] {}) = [text_a @ [10]]"
  by (simp add: ev write_streaming_dataset_def)

lemma ev_short: "write_streaming_dataset lower_ascii sha1_stub
     [[py ''text'' \<mapsto> py ''Short''], [py ''text'' \<mapsto> py ''short'']] (py ''text'') [] 1000 {}
       = (Inr (0, 0), [], {})"
  by (simp add: ev write_streaming_dataset_def)

lemma ev_cab: "write_streaming_dataset lower_ascii sha1_stub [rec_c, rec_a, rec_b] (py ''text'') [] 50 {}
     = (Inr (50, 1), [text_c @ [10]], {map of_nat text_c})"
  by (simp add: ev write_streaming_dataset_def)

lemma counted_refl: "counted s s"
  by (simp add: counted_def)

lemma card_diff_chain:
  assumes "A \<subseteq> B" "B \<subseteq> C" "finite (B - A)" "finite (C - B)"
  shows "finite (C - A) \<and> card (C - A) = card (B - A) + card (C - B)"
proof -
  have u: "C - A = (B - A) \<union> (C - B)" using assms(1,2) by auto
  have d: "(B - A) \<inter> (C - B) = {}" by auto
  show ?thesis
    using u card_Un_disjoint [OF assms(3) assms(4) d] assms(3,4) by simp
qed

lemma counted_trans:
  assumes "counted a b" "counted b c"
  shows "counted a c"
proof -
  obtain n1 where n1: "file_handle b = file_handle a @ n1"
    "int (length n1) = kept b - kept a"
    "\<forall>entry \<in> set n1. entry \<noteq> [] \<and> last entry = 10"
    "int (sum_list (map utf8_len n1)) = (written b - written a) + (kept b - kept a)"
    and s1: "seen_hashes a \<subseteq> seen_hashes b" "finite (seen_hashes b - seen_hashes a)"
    "int (card (seen_hashes b - seen_hashes a)) = kept b - kept a"
    using assms(1) unfolding counted_def by (elim conjE exE)
  obtain n2 where n2: "file_handle c = file_handle b @ n2"
    "int (length n2) = kept c - kept b"
    "\<forall>entry \<in> set n2. entry \<noteq> [] \<and> last entry = 10"
    "int (sum_list (map utf8_len n2)) = (written c - written b) + (kept c - kept b)"
    and s2: "seen_hashes b \<subseteq> seen_hashes c" "finite (seen_hashes c - seen_hashes b)"
    "int (card (seen_hashes c - seen_hashes b)) = kept c - kept b"
    using assms(2) unfolding counted_def by (elim conjE exE)
  have f: "file_handle c = file_handle a @ (n1 @ n2)" using n1(1) n2(1) by simp
  have l: "int (length (n1 @ n2)) = kept c - kept a" using n1(2) n2(2) by simp
  have e: "\<forall>entry \<in> set (n1 @ n2). entry \<noteq> [] \<and> last entry = 10"
    using n1(3) n2(3) by auto
  have b: "int (sum_list (map utf8_len (n1 @ n2))) = (written c - written a) + (kept c - kept a)"
    using n1(4) n2(4) by simp
  have k: "finite (seen_hashes c - seen_hashes a) \<and>
      card (seen_hashes c - seen_hashes a)
        = card (seen_hashes b - seen_hashes a) + card (seen_hashes c - seen_hashes b)"
    using card_diff_chain [OF s1(1) s2(1) s1(2) s2(2)] .
  have k2: "int (card (seen_hashes c - seen_hashes a)) = kept c - kept a"
    using k s1(3) s2(3) by simp
  have sub: "seen_hashes a \<subseteq> seen_hashes c" using s1(1) s2(1) by simp
  show ?thesis
    unfolding counted_def using f l e b k k2 sub by blast
qed

lemma utf8_len_line: "encode_utf8 t = Inr bs \<Longrightarrow> utf8_len (t @ [10]) = length bs + 1"
  by (simp add: utf8_len_def encode_line)

lemma body_counted:
  assumes "body lower sha1 field max_chars ex s = (c, s')" "c = Continue \<or> c = Break"
  shows "counted s s'"
  using assms(1)
proof (cases rule: body_cases)
  case skip
  then show ?thesis by (simp add: counted_refl)
next
  case (raise_hash e)
  then show ?thesis using assms(2) by simp
next
  case (raise_write e h)
  then show ?thesis using assms(2) by simp
next
  case (accept raw t h bs)
  have d: "insert h (seen_hashes s) - seen_hashes s = {h}"
    using accept(6) by auto
  have "file_handle s' = file_handle s @ [t @ [10]]" using accept(9) by simp
  moreover have "int (length [t @ [10]]) = kept s' - kept s" using accept(9) by simp
  moreover have "\<forall>entry \<in> set [t @ [10]]. entry \<noteq> [] \<and> last entry = 10" by simp
  moreover have "int (sum_list (map utf8_len [t @ [10]])) = (written s' - written s) + (kept s' - kept s)"
    using accept(9) utf8_len_line [OF accept(7)] by simp
  moreover have "seen_hashes s \<subseteq> seen_hashes s'" using accept(9) by auto
  moreover have "finite (seen_hashes s' - seen_hashes s)" using accept(9) d by simp
  moreover have "int (card (seen_hashes s' - seen_hashes s)) = kept s' - kept s"
    using accept(9) d by simp
  ultimately show ?thesis unfolding counted_def by blast
qed

lemma for_loop_counted:
  assumes "for_loop lower sha1 field max_chars dataset st = (c, st')" "c = Continue \<or> c = Break"
  shows "counted st st'"
  using counted_refl counted_trans body_counted assms
  by (rule for_loop_rel_returns [where R = counted])

lemma wsd_returns:
  assumes "write_streaming_dataset lower sha1 dataset field fh max_chars seen = (Inr (w, k), fh', seen')"
  obtains c st' where
    "for_loop lower sha1 field max_chars dataset
       \<lparr>file_handle = fh, seen_hashes = seen, written = 0, kept = 0\<rparr> = (c, st')"
    "c = Continue \<or> c = Break"
    "w = written st'" "k = kept st'" "fh' = file_handle st'" "seen' = seen_hashes st'"
proof -
  obtain c st' where f: "for_loop lower sha1 field max_chars dataset
       \<lparr>file_handle = fh, seen_hashes = seen, written = 0, kept = 0\<rparr> = (c, st')"
    by (cases "for_loop lower sha1 field max_chars dataset
       \<lparr>file_handle = fh, seen_hashes = seen, written = 0, kept = 0\<rparr>")
  show ?thesis
  proof (cases c)
    case Continue
    then show ?thesis using that [OF f] assms f by (simp add: write_streaming_dataset_def)
  next
    case Break
    then show ?thesis using that [OF f] assms f by (simp add: write_streaming_dataset_def)
  next
    case (Raise e)
    then show ?thesis using assms f by (simp add: write_streaming_dataset_def)
  qed
qed

lemma ev_wsd_ab: "write_streaming_dataset lower_ascii sha1_stub [rec_a, rec_b] (py ''text'')
     [] 1000 {} = (Inr (50, 1), [text_a @ [10]], {map of_nat text_b})"
  by (simp add: ev write_streaming_dataset_def)

lemma for_loop_quota:
  assumes "for_loop lower sha1 field max_chars dataset st = (c, st')"
    and "c = Continue \<or> c = Break"
    and "(kept st = 0 \<and> written st = 0) \<or> (0 \<le> written st \<and> written st < max_chars)"
  shows "(c = Continue \<longrightarrow>
            (kept st' = 0 \<and> written st' = 0) \<or> (0 \<le> written st' \<and> written st' < max_chars)) \<and>
         written st' \<le> max (max_chars - 1) 0 + 200000 \<and>
         (max_chars \<le> 0 \<longrightarrow> kept st' \<le> 1)"
  using assms(1,3)
proof (induction dataset arbitrary: st)
  case Nil
  then show ?case by auto
next
  case (Cons ex dataset)
  obtain d s1 where b: "body lower sha1 field max_chars ex st = (d, s1)"
    by (cases "body lower sha1 field max_chars ex st")
  from b show ?case
  proof (cases rule: body_cases)
    case skip
    then have "for_loop lower sha1 field max_chars dataset st = (c, st')"
      using Cons.prems(1) b by simp
    then show ?thesis using Cons.IH Cons.prems(2) by blast
  next
    case (raise_hash e)
    then show ?thesis using Cons.prems(1) b assms(2) by auto
  next
    case (raise_write e h)
    then show ?thesis using Cons.prems(1) b assms(2) by auto
  next
    case (accept raw t h bs)
    have len: "int (length bs) \<le> 200000"
      using encode_utf8_length [OF accept(7)] accept(4) by simp
    have w1: "written s1 = written st + int (length bs)" "kept s1 = kept st + 1"
      using accept(9) by simp_all
    have nonneg: "0 \<le> written st" using Cons.prems(2) by auto
    show ?thesis
    proof (cases "max_chars \<le> written st + int (length bs)")
      case True
      then have "c = Break" "st' = s1"
        using Cons.prems(1) b accept(8) by simp_all
      then show ?thesis using w1 len Cons.prems(2) by auto
    next
      case False
      then have f: "for_loop lower sha1 field max_chars dataset s1 = (c, st')"
        using Cons.prems(1) b accept(8) by simp
      have "(kept s1 = 0 \<and> written s1 = 0) \<or> (0 \<le> written s1 \<and> written s1 < max_chars)"
        using False w1 nonneg by simp
      then show ?thesis using Cons.IH [OF f] by blast
    qed
  qed
qed

lemma ev_wsd_a0: "write_streaming_dataset lower_ascii sha1_stub [rec_a] (py ''text'') [] 0 {}
     = (Inr (50, 1), [text_a @ [10]], {map of_nat text_b})"
  by (simp add: ev write_streaming_dataset_def)

lemma ev_wsd_ac: "write_streaming_dataset lower_ascii sha1_stub [rec_a, rec_c] (py ''text'') [] 60 {}
     = (Inr (100, 2), [text_a @ [10], text_c @ [10]], {map of_nat text_c, map of_nat text_b})"
  by (simp add: ev write_streaming_dataset_def)

section \<open>Skipped records\<close>

text \<open>
  C7. A record that is skipped, because the field is missing, the cleaned text is empty,
  its length is outside the window, or its fingerprint is already in the set, leaves
  the file, both counters and the set as they were and raises nothing: the iteration
  ends with \<open>continue\<close> in the same state. The record whose text is three spaces, a
  newline and two spaces is such a record, whatever the state.
\<close>

theorem skipped_record_unchanged:
  assumes "example field = None \<or>
     (\<exists>raw. example field = Some raw \<and>
        (replace_crlf (strip raw) = [] \<or>
         length (replace_crlf (strip raw)) < 50 \<or>
         length (replace_crlf (strip raw)) > 50000 \<or>
         (\<exists>h. hash_text sha1 (normalize lower (replace_crlf (strip raw))) = Inr h \<and>
              h \<in> seen_hashes st)))"
  shows "body lower sha1 field max_chars example st = (Continue, st) \<and>
         body lower sha1 field max_chars (example(field \<mapsto> [32, 32, 32, 10, 32, 32])) st
           = (Continue, st)"
proof
  show "body lower sha1 field max_chars example st = (Continue, st)"
    using assms by (auto simp: body_def Let_def MIN_CHARS_def MAX_CHARS_def)
  have "replace_crlf (strip [32, 32, 32, 10, 32, 32]) = []"
    by (simp add: strip_def isspace_def)
  then show "body lower sha1 field max_chars (example(field \<mapsto> [32, 32, 32, 10, 32, 32])) st
           = (Continue, st)"
    by (simp add: body_def)
qed

theorem skipped_record_unchanged_witness:
  "body lower_ascii sha1_stub (py ''text'') 100 [py ''text'' \<mapsto> py ''short''] st0
     = (Continue, st0) \<and>
   body lower_ascii sha1_stub (py ''text'') 100
     ([py ''text'' \<mapsto> py ''short''](py ''text'' \<mapsto> [32, 32, 32, 10, 32, 32])) st0
     = (Continue, st0)"
proof -
  have "length (replace_crlf (strip (py ''short''))) < 50"
    by (simp add: strip_def isspace_def py_def)
  then have "\<exists>raw. [py ''text'' \<mapsto> py ''short''] (py ''text'') = Some raw \<and>
        (replace_crlf (strip raw) = [] \<or>
         length (replace_crlf (strip raw)) < 50 \<or>
         length (replace_crlf (strip raw)) > 50000 \<or>
         (\<exists>h. hash_text sha1_stub (normalize lower_ascii (replace_crlf (strip raw))) = Inr h \<and>
              h \<in> seen_hashes st0))"
    by simp
  then show ?thesis
    using skipped_record_unchanged [of "[py ''text'' \<mapsto> py ''short'']" "py ''text''"
        sha1_stub lower_ascii st0 100]
    by blast
qed

section \<open>The set of hashes only grows\<close>

text \<open>
  C9. The set of hashes after one iteration, after the whole loop, after a call and
  after any sequence of calls that share it contains the set before: nothing is ever
  removed from it.
\<close>

theorem seen_set_grows:
  "seen_hashes st \<subseteq> seen_hashes (snd (body lower sha1 field max_chars example st)) \<and>
   seen_hashes st \<subseteq> seen_hashes (snd (for_loop lower sha1 field max_chars dataset st)) \<and>
   seen \<subseteq> snd (snd (write_streaming_dataset lower sha1 dataset field fh max_chars seen)) \<and>
   seen \<subseteq> snd (collect_calls lower sha1 calls fh seen)"
  using body_seen_mono [of st lower sha1 field max_chars example]
    for_loop_seen_mono [of st lower sha1 field max_chars dataset]
    wsd_seen_mono [of seen lower sha1 dataset field fh max_chars]
    collect_calls_seen_mono [of seen lower sha1 calls fh]
  by simp

section \<open>What the byte total counts\<close>

text \<open>
  C3, as the code has it. An iteration that writes to the file writes one string, a
  text followed by a newline, and adds to \<open>written\<close> the number of bytes of the UTF-8
  encoding of the text alone: the newline is written but not counted, so the amount
  added is one less than the number of bytes of the write. The same iteration adds one
  to \<open>kept\<close>.
\<close>

theorem byte_total_counts_text_only:
  assumes "body lower sha1 field max_chars example st = (c, st')"
    and "file_handle st' \<noteq> file_handle st"
  shows "\<exists>t bs. file_handle st' = file_handle st @ [t @ [10]] \<and>
           encode_utf8 t = Inr bs \<and> encode_utf8 (t @ [10]) = Inr (bs @ [10]) \<and>
           written st' = written st + int (length bs) \<and> kept st' = kept st + 1"
  using assms(1)
proof (cases rule: body_cases)
  case skip
  then show ?thesis using assms(2) by simp
next
  case (raise_hash e)
  then show ?thesis using assms(2) by simp
next
  case (raise_write e h)
  then show ?thesis using assms(2) by simp
next
  case (accept raw t h bs)
  then show ?thesis using encode_line [of t bs] by auto
qed

text \<open>
  The statement with the newline counted fails on the first record of 50 ASCII
  characters: 50 is added to the total and the write has 51 bytes.
\<close>

theorem newline_not_counted_counterexample:
  "written (snd (body lower_ascii sha1_stub (py ''text'') 50 rec_a st0)) - written st0 = 50 \<and>
   utf8_len (last (file_handle (snd (body lower_ascii sha1_stub (py ''text'') 50 rec_a st0)))) = 51"
  by (simp add: ev_a) (simp add: ev)

theorem byte_total_counts_text_only_witness:
  "\<exists>t bs. file_handle (snd (body lower_ascii sha1_stub (py ''text'') 50 rec_a st0))
             = file_handle st0 @ [t @ [10]] \<and>
     encode_utf8 t = Inr bs \<and> encode_utf8 (t @ [10]) = Inr (bs @ [10]) \<and>
     written (snd (body lower_ascii sha1_stub (py ''text'') 50 rec_a st0))
       = written st0 + int (length bs) \<and>
     kept (snd (body lower_ascii sha1_stub (py ''text'') 50 rec_a st0)) = kept st0 + 1"
proof -
  have "file_handle (snd (body lower_ascii sha1_stub (py ''text'') 50 rec_a st0))
          \<noteq> file_handle st0"
    by (simp add: ev_a) (simp add: st0_def)
  then show ?thesis
    using byte_total_counts_text_only [of lower_ascii sha1_stub "py ''text''" 50 rec_a st0
        "fst (body lower_ascii sha1_stub (py ''text'') 50 rec_a st0)"
        "snd (body lower_ascii sha1_stub (py ''text'') 50 rec_a st0)"]
    by simp
qed

section \<open>Nothing is written after the quota is reached\<close>

text \<open>
  C4. When the loop has reached a record (the records before it were consumed without
  \<open>break\<close> or exception), the record is written and the byte total after it is at
  least the quota, the loop ends there with \<open>break\<close>: the state, and with it the file,
  is the one right after that write whatever records follow in the dataset.
\<close>

theorem no_write_after_quota:
  assumes "for_loop lower sha1 field max_chars pre st0' = (Continue, st)"
    and "body lower sha1 field max_chars a st = (c, st1)"
    and "file_handle st1 \<noteq> file_handle st"
    and "max_chars \<le> written st1"
  shows "for_loop lower sha1 field max_chars (pre @ a # post) st0' = (Break, st1) \<and>
         file_handle (snd (for_loop lower sha1 field max_chars (pre @ a # post) st0'))
           = file_handle st1"
proof -
  have "c = Break"
    using assms(2)
  proof (cases rule: body_cases)
    case skip
    then show ?thesis using assms(3) by simp
  next
    case (raise_hash e)
    then show ?thesis using assms(3) by simp
  next
    case (raise_write e h)
    then show ?thesis using assms(3) by simp
  next
    case (accept raw t h bs)
    then show ?thesis using assms(4) by simp
  qed
  then have "for_loop lower sha1 field max_chars (a # post) st = (Break, st1)"
    using assms(2) by simp
  then have "for_loop lower sha1 field max_chars (pre @ a # post) st0' = (Break, st1)"
    using assms(1) by (simp add: for_loop_append)
  then show ?thesis by simp
qed

theorem no_write_after_quota_witness:
  "for_loop lower_ascii sha1_stub (py ''text'') 50 ([] @ rec_a # [rec_c]) st0
     = (Break, \<lparr>file_handle = [text_a @ [10]], seen_hashes = {map of_nat text_b},
                written = 50, kept = 1\<rparr>)"
proof -
  let ?st1 = "\<lparr>file_handle = [text_a @ [10]], seen_hashes = {map of_nat text_b},
                written = 50, kept = 1\<rparr> :: byte list collector"
  have 1: "for_loop lower_ascii sha1_stub (py ''text'') 50 [] st0 = (Continue, st0)"
    by simp
  have 2: "body lower_ascii sha1_stub (py ''text'') 50 rec_a st0 = (Break, ?st1)"
    by (rule ev_a)
  have 3: "file_handle ?st1 \<noteq> file_handle st0"
    by (simp add: st0_def)
  have 4: "50 \<le> written ?st1"
    by simp
  show ?thesis
    using no_write_after_quota [OF 1 2 3 4, of "[rec_c]"] by simp
qed


section \<open>The length window\<close>




section \<open>What is written\<close>




section \<open>Deduplication within a run\<close>

text \<open>
  C1, as the code has it. In a run that starts with an empty file and an empty set of
  hashes, as \<open>main\<close> does, no two entries of the file have the same fingerprint: of
  records with the same stripped, case-folded text at most one is written, whichever
  call read each. When the loop reaches a record that passes the filters while its
  fingerprint is not in the set, that record is written, and no entry with that
  fingerprint is added afterwards, neither by the rest of the call nor by any later
  calls that share the set.
\<close>

theorem one_entry_per_fingerprint:
  "distinct (map (fingerprint lower sha1) (fst (collect_calls lower sha1 calls [] {}))) \<and>
   (for_loop lower sha1 field max_chars pre s0 = (Continue, st) \<and>
    cleaned field a = Some t \<and> hash_text sha1 (normalize lower t) = Inr h \<and>
    h \<notin> seen_hashes st \<and> encode_utf8 t = Inr bs
      \<longrightarrow> (\<exists>more. file_handle (snd (for_loop lower sha1 field max_chars (pre @ a # post) s0))
                     = file_handle st @ (t @ [10]) # more \<and>
              (\<forall>entry \<in> set more. fingerprint lower sha1 entry \<noteq> Inr h))) \<and>
   (h \<in> seen
      \<longrightarrow> (\<exists>new. fst (collect_calls lower sha1 calls fh seen) = fh @ new \<and>
              (\<forall>entry \<in> set new. fingerprint lower sha1 entry \<noteq> Inr h)))"
proof (intro conjI impI)
  have "fresh_entries lower sha1 [] {} (fst (collect_calls lower sha1 calls [] {}))
     (snd (collect_calls lower sha1 calls [] {}))"
    by (rule collect_calls_fresh_entries)
  then show "distinct (map (fingerprint lower sha1) (fst (collect_calls lower sha1 calls [] {})))"
    by (auto simp: fresh_entries_def)
next
  assume a: "for_loop lower sha1 field max_chars pre s0 = (Continue, st) \<and>
    cleaned field a = Some t \<and> hash_text sha1 (normalize lower t) = Inr h \<and>
    h \<notin> seen_hashes st \<and> encode_utf8 t = Inr bs"
  let ?st1 = "st\<lparr>seen_hashes := insert h (seen_hashes st),
        file_handle := file_handle st @ [t @ [10]],
        written := written st + int (length bs),
        kept := kept st + 1\<rparr>"
  let ?c = "if max_chars \<le> written st + int (length bs) then Break else Continue"
  have b: "body lower sha1 field max_chars a st = (?c, ?st1)"
    using a body_cleaned [of field a t sha1 lower h st bs max_chars] by simp
  have ap: "for_loop lower sha1 field max_chars (pre @ a # post) s0
      = for_loop lower sha1 field max_chars (a # post) st"
    using a by (simp add: for_loop_append)
  show "\<exists>more. file_handle (snd (for_loop lower sha1 field max_chars (pre @ a # post) s0))
                     = file_handle st @ (t @ [10]) # more \<and>
              (\<forall>entry \<in> set more. fingerprint lower sha1 entry \<noteq> Inr h)"
  proof (cases "max_chars \<le> written st + int (length bs)")
    case True
    then have "for_loop lower sha1 field max_chars (a # post) st = (Break, ?st1)"
      using b by simp
    then have "file_handle (snd (for_loop lower sha1 field max_chars (pre @ a # post) s0))
        = file_handle st @ (t @ [10]) # []"
      using ap by simp
    then show ?thesis by (intro exI [of _ "[]"]) simp
  next
    case False
    then have f: "for_loop lower sha1 field max_chars (a # post) st
        = for_loop lower sha1 field max_chars post ?st1"
      using b by simp
    have "fresh_entries lower sha1 (file_handle ?st1) (seen_hashes ?st1)
       (file_handle (snd (for_loop lower sha1 field max_chars post ?st1)))
       (seen_hashes (snd (for_loop lower sha1 field max_chars post ?st1)))"
      by (rule for_loop_fresh_entries)
    moreover have "h \<in> seen_hashes ?st1" by simp
    ultimately have "\<exists>new. file_handle (snd (for_loop lower sha1 field max_chars post ?st1))
          = file_handle ?st1 @ new \<and>
        (\<forall>entry \<in> set new. fingerprint lower sha1 entry \<noteq> Inr h)"
      by (rule fresh_entries_avoid)
    then obtain new where n:
      "file_handle (snd (for_loop lower sha1 field max_chars post ?st1)) = file_handle ?st1 @ new"
      "\<forall>entry \<in> set new. fingerprint lower sha1 entry \<noteq> Inr h"
      by (elim exE conjE)
    have "file_handle (snd (for_loop lower sha1 field max_chars (pre @ a # post) s0))
        = file_handle st @ (t @ [10]) # new"
      using ap f n(1) by simp
    then show ?thesis using n(2) by (intro exI [of _ new]) simp
  qed
next
  assume "h \<in> seen"
  then show "\<exists>new. fst (collect_calls lower sha1 calls fh seen) = fh @ new \<and>
              (\<forall>entry \<in> set new. fingerprint lower sha1 entry \<noteq> Inr h)"
    by (rule fresh_entries_avoid [OF collect_calls_fresh_entries])
qed

text \<open>
  That exactly one of two such records is written fails: two records with the same
  case-folded text that are too short are both skipped, and two valid ones that follow
  the record at which the quota is reached are never read.
\<close>

theorem exactly_one_written_counterexample:
  "normalize lower_ascii (replace_crlf (strip (py ''Short'')))
     = normalize lower_ascii (replace_crlf (strip (py ''short''))) \<and>
   write_streaming_dataset lower_ascii sha1_stub
     [[py ''text'' \<mapsto> py ''Short''], [py ''text'' \<mapsto> py ''short'']] (py ''text'') [] 1000 {}
       = (Inr (0, 0), [], {}) \<and>
   normalize lower_ascii (replace_crlf (strip text_a))
     = normalize lower_ascii (replace_crlf (strip text_b)) \<and>
   write_streaming_dataset lower_ascii sha1_stub [rec_c, rec_a, rec_b] (py ''text'') [] 50 {}
     = (Inr (50, 1), [text_c @ [10]], {map of_nat text_c})"
proof -
  have "normalize lower_ascii (replace_crlf (strip (py ''Short'')))
     = normalize lower_ascii (replace_crlf (strip (py ''short'')))"
    by (simp add: ev)
  moreover have "normalize lower_ascii (replace_crlf (strip text_a))
     = normalize lower_ascii (replace_crlf (strip text_b))"
    by (simp add: ev)
  ultimately show ?thesis
    using ev_short ev_cab by simp
qed

theorem one_entry_per_fingerprint_witness:
  "distinct (map (fingerprint lower_ascii sha1_stub)
     (fst (collect_calls lower_ascii sha1_stub
            [([rec_a, rec_b], py ''text'', 1000), ([rec_b], py ''text'', 1000)] [] {}))) \<and>
   fst (collect_calls lower_ascii sha1_stub
            [([rec_a, rec_b], py ''text'', 1000), ([rec_b], py ''text'', 1000)] [] {})
     = [text_a @ [10]] \<and>
   (\<exists>more. file_handle (snd (for_loop lower_ascii sha1_stub (py ''text'') 1000
                              ([] @ rec_a # [rec_b]) st0))
              = file_handle st0 @ (text_a @ [10]) # more \<and>
           (\<forall>entry \<in> set more.
              fingerprint lower_ascii sha1_stub entry \<noteq> Inr (map of_nat text_b))) \<and>
   file_handle (snd (for_loop lower_ascii sha1_stub (py ''text'') 1000 [rec_a, rec_b] st0))
     = [text_a @ [10]] \<and>
   (\<exists>new. fst (collect_calls lower_ascii sha1_stub [([rec_b], py ''text'', 1000)]
                 [text_a @ [10]] {map of_nat text_b}) = [text_a @ [10]] @ new \<and>
          (\<forall>entry \<in> set new.
             fingerprint lower_ascii sha1_stub entry \<noteq> Inr (map of_nat text_b)))"
proof -
  have h: "for_loop lower_ascii sha1_stub (py ''text'') 1000 [] st0 = (Continue, st0) \<and>
    cleaned (py ''text'') rec_a = Some text_a \<and>
    hash_text sha1_stub (normalize lower_ascii text_a) = Inr (map of_nat text_b) \<and>
    map of_nat text_b \<notin> seen_hashes st0 \<and> encode_utf8 text_a = Inr (map of_nat text_a)"
    using ev_clean_a ev_hash_a ev_enc_a by (simp add: st0_def)
  have m: "map of_nat text_b \<in> {map of_nat text_b :: byte list}"
    by simp
  note t1 = one_entry_per_fingerprint [of lower_ascii sha1_stub
      "[([rec_a, rec_b], py ''text'', 1000), ([rec_b], py ''text'', 1000)]"
      "py ''text''" 1000 "[]" st0 st0 rec_a text_a "map of_nat text_b" "map of_nat text_a"
      "[rec_b]" "{map of_nat text_b}" "[text_a @ [10]]"]
  note t2 = one_entry_per_fingerprint [of lower_ascii sha1_stub
      "[([rec_b], py ''text'', 1000)]"
      "py ''text''" 1000 "[]" st0 st0 rec_a text_a "map of_nat text_b" "map of_nat text_a"
      "[rec_b]" "{map of_nat text_b}" "[text_a @ [10]]"]
  have 1: "distinct (map (fingerprint lower_ascii sha1_stub)
     (fst (collect_calls lower_ascii sha1_stub
            [([rec_a, rec_b], py ''text'', 1000), ([rec_b], py ''text'', 1000)] [] {})))"
    by (rule t1 [THEN conjunct1])
  have 2: "\<exists>more. file_handle (snd (for_loop lower_ascii sha1_stub (py ''text'') 1000
                              ([] @ rec_a # [rec_b]) st0))
              = file_handle st0 @ (text_a @ [10]) # more \<and>
           (\<forall>entry \<in> set more.
              fingerprint lower_ascii sha1_stub entry \<noteq> Inr (map of_nat text_b))"
    by (rule mp [OF t1 [THEN conjunct2, THEN conjunct1] h])
  have 3: "file_handle (snd (for_loop lower_ascii sha1_stub (py ''text'') 1000 [rec_a, rec_b] st0))
     = [text_a @ [10]]"
    by (simp only: ev_ab snd_conv collector.select_convs)
  have 4: "\<exists>new. fst (collect_calls lower_ascii sha1_stub [([rec_b], py ''text'', 1000)]
                 [text_a @ [10]] {map of_nat text_b}) = [text_a @ [10]] @ new \<and>
          (\<forall>entry \<in> set new.
             fingerprint lower_ascii sha1_stub entry \<noteq> Inr (map of_nat text_b))"
    by (rule mp [OF t2 [THEN conjunct2, THEN conjunct2] m])
  show ?thesis
    using 1 2 3 4 ev_run_ab by (intro conjI) assumption+
qed

section \<open>The quota and the byte total\<close>

text \<open>
  C2, as the code has it. The quota is compared with the total only after a write, so the
  total returned can exceed it, by less than one record: a record has at most 50000
  characters of at most 4 bytes, and the total returned is at most
  \<open>max (max_chars - 1) 0 + 200000\<close>. With a quota of 0 (or less) the call writes the
  first accepted record and stops: at most one record, not none. The file receives
  \<open>written + kept\<close> bytes, the texts and one newline for each.
\<close>

theorem quota_overshoot_bounded:
  assumes "write_streaming_dataset lower sha1 dataset field fh max_chars seen
             = (Inr (w, k), fh', seen')"
  shows "w \<le> max (max_chars - 1) 0 + 200000 \<and>
         (max_chars \<le> 0 \<longrightarrow> k \<le> 1) \<and>
         (\<exists>new. fh' = fh @ new \<and> int (sum_list (map utf8_len new)) = w + k)"
proof -
  let ?s = "\<lparr>file_handle = fh, seen_hashes = seen, written = 0, kept = 0\<rparr> :: 'a collector"
  obtain c st' where r: "for_loop lower sha1 field max_chars dataset ?s = (c, st')"
    "c = Continue \<or> c = Break"
    "w = written st'" "k = kept st'" "fh' = file_handle st'" "seen' = seen_hashes st'"
    using assms by (rule wsd_returns)
  have i: "(kept ?s = 0 \<and> written ?s = 0) \<or> (0 \<le> written ?s \<and> written ?s < max_chars)"
    by simp
  have q: "written st' \<le> max (max_chars - 1) 0 + 200000" "max_chars \<le> 0 \<longrightarrow> kept st' \<le> 1"
    using for_loop_quota [OF r(1) r(2) i] by simp_all
  have "counted ?s st'" using r(1) r(2) by (rule for_loop_counted)
  then have "\<exists>new. fh' = fh @ new \<and> int (sum_list (map utf8_len new)) = w + k"
    unfolding counted_def using r(3) r(4) r(5) by auto
  then show ?thesis using q r(3) r(4) by simp
qed

text \<open>
  The bound by the quota itself fails: with quota 0 one record of 50 bytes is written
  and 50 is returned; with quota 60 two records are written and 100 is returned.
\<close>

theorem quota_exceeded_counterexample:
  "write_streaming_dataset lower_ascii sha1_stub [rec_a] (py ''text'') [] 0 {}
     = (Inr (50, 1), [text_a @ [10]], {map of_nat text_b}) \<and> (50 :: int) > 0 \<and>
   write_streaming_dataset lower_ascii sha1_stub [rec_a, rec_c] (py ''text'') [] 60 {}
     = (Inr (100, 2), [text_a @ [10], text_c @ [10]], {map of_nat text_c, map of_nat text_b}) \<and>
   (100 :: int) > 60"
  using ev_wsd_a0 ev_wsd_ac by simp

theorem quota_overshoot_bounded_witness:
  "write_streaming_dataset lower_ascii sha1_stub [rec_a] (py ''text'') [] 0 {}
     = (Inr (50, 1), [text_a @ [10]], {map of_nat text_b}) \<and>
   (50 :: int) \<le> max (0 - 1) 0 + 200000 \<and> ((0 :: int) \<le> 0 \<longrightarrow> (1 :: int) \<le> 1) \<and>
   (\<exists>new. [text_a @ [10]] = [] @ new \<and> int (sum_list (map utf8_len new)) = 50 + 1)"
  using ev_wsd_a0 quota_overshoot_bounded [OF ev_wsd_a0] by (rule conjI)

section \<open>What the count of kept records counts\<close>

text \<open>
  C10. When a call returns, the \<open>kept\<close> it returns is the number of entries the call
  appended to the file, each of them ending in a newline, and the number of hashes the
  call added to the set: the set afterwards contains the set before and has exactly
  \<open>kept\<close> more elements.
\<close>

theorem kept_counts_entries_and_hashes:
  assumes "write_streaming_dataset lower sha1 dataset field fh max_chars seen
             = (Inr (w, k), fh', seen')"
  shows "(\<exists>new. fh' = fh @ new \<and> int (length new) = k \<and>
            (\<forall>entry \<in> set new. entry \<noteq> [] \<and> last entry = 10)) \<and>
         seen \<subseteq> seen' \<and> int (card (seen' - seen)) = k \<and>
         (finite seen \<longrightarrow> int (card seen') = int (card seen) + k)"
proof -
  let ?s = "\<lparr>file_handle = fh, seen_hashes = seen, written = 0, kept = 0\<rparr> :: 'a collector"
  obtain c st' where r: "for_loop lower sha1 field max_chars dataset ?s = (c, st')"
    "c = Continue \<or> c = Break"
    "w = written st'" "k = kept st'" "fh' = file_handle st'" "seen' = seen_hashes st'"
    using assms by (rule wsd_returns)
  have cn: "counted ?s st'" using r(1) r(2) by (rule for_loop_counted)
  then obtain new where n: "fh' = fh @ new" "int (length new) = k"
    "\<forall>entry \<in> set new. entry \<noteq> [] \<and> last entry = 10"
    unfolding counted_def using r(4) r(5) by auto
  have s: "seen \<subseteq> seen'" "finite (seen' - seen)" "int (card (seen' - seen)) = k"
    using cn r(4) r(6) unfolding counted_def by auto
  have "finite seen \<longrightarrow> int (card seen') = int (card seen) + k"
  proof
    assume fin: "finite seen"
    have u: "seen' = seen \<union> (seen' - seen)" using s(1) by auto
    have "card (seen \<union> (seen' - seen)) = card seen + card (seen' - seen)"
      using fin s(2) by (intro card_Un_disjoint) auto
    then show "int (card seen') = int (card seen) + k"
      using u s(3) by simp
  qed
  then show ?thesis using n s(1) s(3) by blast
qed

theorem kept_counts_entries_and_hashes_witness:
  "write_streaming_dataset lower_ascii sha1_stub [rec_a, rec_b] (py ''text'') [] 1000 {}
     = (Inr (50, 1), [text_a @ [10]], {map of_nat text_b}) \<and>
   (\<exists>new. [text_a @ [10]] = [] @ new \<and> int (length new) = 1 \<and>
            (\<forall>entry \<in> set new. entry \<noteq> [] \<and> last entry = 10)) \<and>
   {} \<subseteq> {map of_nat text_b :: byte list} \<and>
   int (card ({map of_nat text_b :: byte list} - {})) = 1 \<and>
   (finite ({} :: byte list set)
      \<longrightarrow> int (card {map of_nat text_b :: byte list}) = int (card ({} :: byte list set)) + 1)"
  using ev_wsd_ab kept_counts_entries_and_hashes [OF ev_wsd_ab] by (rule conjI)

end
